theory Spec2Isabelle
  imports Main "HOL-Library.Word"
begin

section \<open>The chunk allocator of the concurrent downloader\<close>

text \<open>
  The program (\<^verbatim>\<open>main.go\<close>) fetches one HTTP resource in fixed-size byte ranges.
  Every worker goroutine runs the same loop: it takes the next chunk index from a shared
  counter with \<^verbatim>\<open>atomic.AddUint64\<close>, derives the byte range of that index, requests
  it, writes the body at the range's offset and reports the span on a channel.

  All range arithmetic of the source is on \<^verbatim>\<open>uint64\<close>, so it is modelled on
  64-bit words: \<open>+\<close>, \<open>-\<close> and \<open>*\<close> wrap around, and \<open>\<le>\<close> is the unsigned order.
\<close>

type_synonym u64 = "64 word"

text \<open>\<^verbatim>\<open>var chunkSize uint64 = 10 * 1024 * 1024\<close> (line 78).\<close>

definition chunkSize :: u64 where
  "chunkSize = 10 * 1024 * 1024"

text \<open>
  Lines 131 to 137, the part of the worker's loop body that claims a chunk. The argument
  \<open>cursor\<close> is the value of the shared counter \<^verbatim>\<open>partCount\<close> before the atomic
  add; the result holds the claimed range (\<open>None\<close> for the \<^verbatim>\<open>return\<close> of line 134)
  and the counter after the add. (The source's \<^verbatim>\<open>size\<close> and \<^verbatim>\<open>end\<close> are
  \<open>sz\<close> and \<open>stop\<close> here: the first is a constant of HOL, the second a keyword.)
  \<^verbatim>\<open>
      partCount := atomic.AddUint64(&partCount, 1) - 1
      start := partCount * chunkSize
      if start >= size { return }
      end := (partCount+1)*chunkSize - 1
  \<close>
\<close>

definition next_chunk :: "u64 \<Rightarrow> u64 \<Rightarrow> u64 \<Rightarrow> (u64 \<times> u64) option \<times> u64" where
  "next_chunk sz cs cursor =
     (let added = cursor + 1;
          partCount = added - 1;
          start = partCount * cs
      in if start \<ge> sz then (None, added)
         else (Some (start, (partCount + 1) * cs - 1), added))"

text \<open>
  One worker that claims chunks until the allocator signals that no work is left, every
  download in between succeeding. The loop \<^verbatim>\<open>for { ... }\<close> has no bound of its own, so
  the model takes fuel: \<open>None\<close> says that the fuel ran out before line 134 was reached.
  The result lists the claimed chunks in order, each with the index it came from.
\<close>

fun drain :: "nat \<Rightarrow> u64 \<Rightarrow> u64 \<Rightarrow> u64 \<Rightarrow> (u64 \<times> u64 \<times> u64) list option" where
  "drain 0 sz cs cursor = None"
| "drain (Suc fuel) sz cs cursor =
     (case next_chunk sz cs cursor of
        (None, cursor') \<Rightarrow> Some []
      | (Some (start, stop), cursor') \<Rightarrow>
          map_option (\<lambda>rest. (cursor, start, stop) # rest) (drain fuel sz cs cursor'))"

text \<open>The number of chunks of a resource: \<open>ceil (size / cs)\<close> on natural numbers.\<close>

definition chunks :: "u64 \<Rightarrow> u64 \<Rightarrow> nat" where
  "chunks sz cs = (unat sz + unat cs - 1) div unat cs"

text \<open>
  The chunk grid fits the 64-bit range: a positive chunk size, and the grid point \<open>n\<close>
  chunks after the first one at or after \<open>size\<close> is still below \<open>2 ^ 64\<close>, so that no start
  offset wraps around while chunks are claimed up to that point. One worker claims one
  index past the last chunk; \<open>n\<close> workers claim \<open>n\<close> of them.
\<close>

definition fits :: "u64 \<Rightarrow> u64 \<Rightarrow> nat \<Rightarrow> bool" where
  "fits sz cs n \<longleftrightarrow> 0 < unat cs \<and> (chunks sz cs + n) * unat cs < 2 ^ 64"

text \<open>The range of chunk index \<open>i\<close>, as the worker computes it.\<close>

definition range_of :: "u64 \<Rightarrow> nat \<Rightarrow> u64 \<times> u64 \<times> u64" where
  "range_of cs i = (of_nat i, of_nat i * cs, (of_nat i + 1) * cs - 1)"

section \<open>Downloading one chunk\<close>

text \<open>
  The HTTP transport and the file system are outside the program; the model takes what they
  answer as data. A response carries its status code, its \<^verbatim>\<open>Content-Length\<close> header
  (the empty string when the header is absent, as \<^verbatim>\<open>Header.Get\<close> returns it), the bytes
  that \<^verbatim>\<open>io.Copy\<close> moves from the body to the writer, and whether the copy then ends
  with an error (a broken connection, a failed write) rather than at the end of the body.
  Bytes copied before such an error stay written.
\<close>

type_synonym byte = "8 word"

record response =
  status_code :: nat
  content_length :: string
  body :: "byte list"
  copy_fails :: bool

text \<open>
  What \<^verbatim>\<open>client.Do\<close> returns, a pair \<^verbatim>\<open>(*Response, error)\<close> in Go: with a nil error there
  is a response; with an error the response is nil, except when the redirect policy
  fails, where the last response comes with the error.
\<close>

datatype do_result = DoErr "response option" | DoOk response

datatype error =
  TransportError | CopyError | NewRequestError | ContentLengthNotFound | ParseUintError
  | OpenFileError

text \<open>
  The destination file: the byte at each offset, \<open>None\<close> where nothing was ever written.
  \<^verbatim>\<open>io.NewOffsetWriter(file, int64(start))\<close> writes the copied bytes one after the other
  from its base offset on; the offset is an \<^verbatim>\<open>int64\<close>, hence an \<open>int\<close> here.
\<close>

type_synonym file_bytes = "int \<Rightarrow> byte option"

definition write_at :: "file_bytes \<Rightarrow> int \<Rightarrow> byte list \<Rightarrow> file_bytes" where
  "write_at f off bs =
     (\<lambda>p. if off \<le> p \<and> p < off + int (length bs) then Some (bs ! nat (p - off)) else f p)"

text \<open>
  \<^verbatim>\<open>downloader.Download\<close> (lines 29 to 39). The request has been sent by the transport;
  \<open>r\<close> is what \<^verbatim>\<open>client.Do\<close> returned for it, and the writer \<^verbatim>\<open>location\<close> is the file
  with the base offset \<open>off\<close>. The status code of the response is never read.
\<close>

definition Download :: "do_result \<Rightarrow> file_bytes \<Rightarrow> int \<Rightarrow> error option \<times> file_bytes" where
  "Download r f off =
     (case r of
        DoErr _ \<Rightarrow> (Some TransportError, f)
      | DoOk resp \<Rightarrow>
          (if copy_fails resp then Some CopyError else None, write_at f off (body resp)))"

section \<open>The workers\<close>

text \<open>\<^verbatim>\<open>type Status struct { Downloaded int }\<close>; Go's \<^verbatim>\<open>int\<close> has 64 bits here.\<close>

record Status =
  Downloaded :: int

text \<open>
  The environment of the workers: whether \<^verbatim>\<open>http.NewRequest\<close> accepts the URL, and what
  the server answers to a GET with the header \<^verbatim>\<open>Range: bytes=start-end\<close>.
\<close>

record env =
  new_request_ok :: bool
  get :: "u64 \<Rightarrow> u64 \<Rightarrow> do_result"

text \<open>
  A worker goroutine (lines 127 to 155) is about to claim a chunk, or holds the chunk
  \<open>(start, end)\<close> whose request it has built, or has returned. A worker shares with the
  others the counter \<^verbatim>\<open>partCount\<close>, the file and the channel \<^verbatim>\<open>status\<close>; the field
  \<open>status\<close> lists what has been sent on the channel, \<open>issued\<close> the chunks claimed so far with
  their indices, and \<open>logged\<close> the lines the workers have logged.
\<close>

datatype wstate = Claiming | Fetching u64 u64 | Returned

datatype log_line = LogNewRequest | LogErrorDownloading

record pool =
  partCount :: u64
  workers :: "wstate list"
  issued :: "(u64 \<times> u64 \<times> u64) list"
  dest :: file_bytes
  status :: "Status list"
  logged :: "log_line list"

text \<open>
  One step of worker \<open>w\<close>. A claiming worker performs lines 131 to 143: the atomic add, the
  test against \<open>size\<close>, and the construction of the request. A fetching worker performs lines
  145 to 153: the download into the file at offset \<^verbatim>\<open>int64(start)\<close> and, when it returned
  no error, the send of \<^verbatim>\<open>Status{Downloaded: int(end - start + 1)}\<close>. The atomic add is the
  only access to the counter, so the interleavings of these steps are the behaviours of
  the goroutines.
\<close>

definition step :: "env \<Rightarrow> u64 \<Rightarrow> u64 \<Rightarrow> nat \<Rightarrow> pool \<Rightarrow> pool" where
  "step E sz cs w s =
     (if w \<ge> length (workers s) then s
      else case workers s ! w of
        Returned \<Rightarrow> s
      | Claiming \<Rightarrow>
          (case next_chunk sz cs (partCount s) of
             (None, c') \<Rightarrow> s\<lparr>partCount := c', workers := (workers s)[w := Returned]\<rparr>
           | (Some (start, stop), c') \<Rightarrow>
               if new_request_ok E
               then s\<lparr>partCount := c', issued := issued s @ [(partCount s, start, stop)],
                      workers := (workers s)[w := Fetching start stop]\<rparr>
               else s\<lparr>partCount := c', issued := issued s @ [(partCount s, start, stop)],
                      workers := (workers s)[w := Returned],
                      logged := logged s @ [LogNewRequest]\<rparr>)
      | Fetching start stop \<Rightarrow>
          (case Download (get E start stop) (dest s) (sint start) of
             (Some err, f') \<Rightarrow>
               s\<lparr>dest := f', workers := (workers s)[w := Returned],
                  logged := logged s @ [LogErrorDownloading]\<rparr>
           | (None, f') \<Rightarrow>
               s\<lparr>dest := f', workers := (workers s)[w := Claiming],
                  status := status s @ [\<lparr>Downloaded = sint (stop - start + 1)\<rparr>]\<rparr>))"

text \<open>
  A schedule names the worker that moves next. The loop of lines 125 to 156 starts
  \<open>n\<close> workers on a counter at 0, an untouched file and an empty channel.
\<close>

definition run :: "env \<Rightarrow> u64 \<Rightarrow> u64 \<Rightarrow> nat list \<Rightarrow> pool \<Rightarrow> pool" where
  "run E sz cs sched s = foldl (\<lambda>s w. step E sz cs w s) s sched"

definition init :: "nat \<Rightarrow> pool" where
  "init n = \<lparr>partCount = 0, workers = replicate n Claiming, issued = [],
             dest = (\<lambda>p. None), status = [], logged = []\<rparr>"

definition all_returned :: "pool \<Rightarrow> bool" where
  "all_returned s \<longleftrightarrow> list_all (\<lambda>x. x = Returned) (workers s)"

definition returned :: "pool \<Rightarrow> nat" where
  "returned s = length (filter (\<lambda>x. x = Returned) (workers s))"

text \<open>
  The invariant of the allocation, for \<open>n\<close> workers. Every worker that has returned
  either logged an error or took an index past the last chunk, so the counter exceeds
  the number of chunks by the number of workers that returned without an error; and the
  chunks issued are those of the indices below the counter, in this order.
\<close>

definition alloc_inv :: "u64 \<Rightarrow> u64 \<Rightarrow> nat \<Rightarrow> pool \<Rightarrow> bool" where
  "alloc_inv sz cs n s \<longleftrightarrow>
     length (workers s) = n \<and>
     length (logged s) \<le> returned s \<and>
     unat (partCount s) - chunks sz cs = returned s - length (logged s) \<and>
     issued s = map (range_of cs) [0..<min (unat (partCount s)) (chunks sz cs)]"

text \<open>
  The invariant of the notifications where nothing fails: nothing is logged, every
  chunk issued has been reported or is being fetched, and every report carries the
  chunk size.
\<close>

definition is_fetching :: "wstate \<Rightarrow> bool" where
  "is_fetching x = (case x of Fetching a b \<Rightarrow> True | _ \<Rightarrow> False)"

definition fetching :: "pool \<Rightarrow> nat" where
  "fetching s = length (filter is_fetching (workers s))"

definition notify_inv :: "u64 \<Rightarrow> pool \<Rightarrow> bool" where
  "notify_inv cs s \<longleftrightarrow>
     logged s = [] \<and>
     length (status s) + fetching s = length (issued s) \<and>
     map Downloaded (status s) = replicate (length (status s)) (sint cs) \<and>
     (\<forall>x \<in> set (workers s). \<forall>a b. x = Fetching a b \<longrightarrow> b - a + 1 = cs)"

text \<open>The environment in which every request is built and every download succeeds.\<close>

definition all_succeed :: "env \<Rightarrow> bool" where
  "all_succeed E \<longleftrightarrow>
     new_request_ok E \<and> (\<forall>a b. \<exists>r. get E a b = DoOk r \<and> \<not> copy_fails r)"

text \<open>The server never sends more bytes than the span \<open>end - start + 1\<close> it was asked for.\<close>

definition in_span :: "env \<Rightarrow> bool" where
  "in_span E \<longleftrightarrow> (\<forall>a b r. get E a b = DoOk r \<longrightarrow> length (body r) \<le> unat (b - a + 1))"

section \<open>Start of the run\<close>

text \<open>
  \<^verbatim>\<open>Exists\<close> (lines 57 to 71) looks at what \<^verbatim>\<open>os.Stat\<close> returned: no error, an error for
  which \<^verbatim>\<open>os.IsNotExist\<close> holds, or any other error. It returns whether the run may go
  on, and logs a line when it may not.
\<close>

datatype stat_result = StatOk | StatNotExist | StatOtherError

datatype message = MsgFileExists | MsgStatError | MsgFatal error | MsgPanic

definition Exists :: "stat_result \<Rightarrow> bool \<Rightarrow> bool \<times> message list" where
  "Exists st override =
     (case st of
        StatOk \<Rightarrow> if override then (True, []) else (False, [MsgFileExists])
      | StatNotExist \<Rightarrow> (True, [])
      | StatOtherError \<Rightarrow> (False, [MsgStatError]))"

text \<open>
  \<^verbatim>\<open>strconv.ParseUint(s, 10, 64)\<close>: a nonempty string of decimal digits whose value is
  below \<open>2 ^ 64\<close>; anything else is an error.
\<close>

definition digit :: "char \<Rightarrow> bool" where
  "digit c \<longleftrightarrow> 48 \<le> (of_char c :: int) \<and> (of_char c :: int) \<le> 57"

definition ParseUint :: "string \<Rightarrow> error + u64" where
  "ParseUint s =
     (if s = [] \<or> \<not> list_all digit s then Inl ParseUintError
      else let v = foldl (\<lambda>v c. 10 * v + (of_char c - 48)) (0::int) s
           in if v < 2 ^ 64 then Inr (word_of_int v) else Inl ParseUintError)"

text \<open>
  \<^verbatim>\<open>GetFileSize\<close> (lines 41 to 55). The error of \<^verbatim>\<open>client.Do\<close> is assigned and never
  read: line 49 reads the header of the response at once, which is a nil pointer
  dereference, a run-time panic, when there is no response. The result also lists the
  HTTP requests that were sent.
\<close>

datatype http_request = HEAD | GET u64 u64

datatype 'a outcome = Panicked | Failed error | Got 'a

definition GetFileSize :: "bool \<Rightarrow> do_result \<Rightarrow> u64 outcome \<times> http_request list" where
  "GetFileSize url_ok r =
     (if \<not> url_ok then (Failed NewRequestError, [])
      else case (case r of DoErr resp \<Rightarrow> resp | DoOk resp \<Rightarrow> Some resp) of
        None \<Rightarrow> (Panicked, [HEAD])
      | Some resp \<Rightarrow>
          if content_length resp = [] then (Failed ContentLengthNotFound, [HEAD])
          else (case ParseUint (content_length resp) of
                  Inl e \<Rightarrow> (Failed e, [HEAD])
                | Inr n \<Rightarrow> (Got n, [HEAD])))"

text \<open>
  \<^verbatim>\<open>main\<close> up to the start of the goroutines (lines 73 to 125). The flags are the
  arguments; the world answers \<^verbatim>\<open>os.Stat\<close>, the construction of the HEAD request, the HEAD
  request itself and \<^verbatim>\<open>os.OpenFile\<close>. The run ends there by the \<^verbatim>\<open>return\<close> of line 88
  (exit status 0), by \<^verbatim>\<open>log.Fatal\<close> (which prints the error and exits with status 1), or
  by a run-time panic (which prints the panic and exits with status 2), as for a negative
  length given to \<^verbatim>\<open>make\<close> in line 102; or it launches the workers on the size found.
\<close>

record args =
  override :: bool
  concurrencyLevel :: int

record world =
  stat :: stat_result
  url_ok :: bool
  head_result :: do_result
  open_ok :: bool

datatype ending = Return | Fatal | Crash

fun exit_status :: "ending \<Rightarrow> nat" where
  "exit_status Return = 0"
| "exit_status Fatal = 1"
| "exit_status Crash = 2"

datatype phase = Ended ending | Launched u64 nat

record start =
  phase :: phase
  requests :: "http_request list"
  printed :: "message list"

definition main :: "args \<Rightarrow> world \<Rightarrow> start" where
  "main A W =
     (case Exists (stat W) (override A) of
        (False, msgs) \<Rightarrow> \<lparr>phase = Ended Return, requests = [], printed = msgs\<rparr>
      | (True, msgs) \<Rightarrow>
          (case GetFileSize (url_ok W) (head_result W) of
             (Panicked, reqs) \<Rightarrow>
               \<lparr>phase = Ended Crash, requests = reqs, printed = msgs @ [MsgPanic]\<rparr>
           | (Failed e, reqs) \<Rightarrow>
               \<lparr>phase = Ended Fatal, requests = reqs, printed = msgs @ [MsgFatal e]\<rparr>
           | (Got n, reqs) \<Rightarrow>
               if \<not> open_ok W
               then \<lparr>phase = Ended Fatal, requests = reqs,
                     printed = msgs @ [MsgFatal OpenFileError]\<rparr>
               else if concurrencyLevel A < 0
               then \<lparr>phase = Ended Crash, requests = reqs, printed = msgs @ [MsgPanic]\<rparr>
               else \<lparr>phase = Launched n (nat (concurrencyLevel A)), requests = reqs,
                     printed = msgs\<rparr>))"

section \<open>End of the run\<close>

text \<open>
  After the loop that starts the workers, \<^verbatim>\<open>main\<close> returns through its deferred calls,
  last registered first: \<^verbatim>\<open>wg.Wait()\<close>, \<^verbatim>\<open>close(status)\<close>, \<^verbatim>\<open>file.Close()\<close>. When
  \<^verbatim>\<open>main\<close> has returned the process is over, whatever the other goroutines were about
  to do. The aggregator goroutine (lines 116 to 123) receives from the channel until it
  is closed and empty, then prints its last line. The channel holds one value
  (\<^verbatim>\<open>make(chan Status, 1)\<close>): a worker whose send finds it full waits.
\<close>

datatype main_pc = AtWait | AtClose | AtFileClose | AtReturn | Over

datatype out_line = Progress int | DownloadComplete

record proc =
  pool :: pool
  buffer :: "Status list"
  closed :: bool
  mainpc :: main_pc
  receiving :: bool
  totalDownloaded :: int
  out :: "out_line list"

datatype event = Worker nat | Aggregator | Main

text \<open>
  One step of the process. A worker moves as in \<open>step\<close>, its send going into the channel,
  and does not move while the send would find the channel full. The aggregator takes
  the value in the channel, adds it up in a 64-bit \<^verbatim>\<open>int\<close> and prints the progress; on a
  closed and empty channel it leaves its loop and prints \<^verbatim>\<open>Download complete\<close>.
  \<^verbatim>\<open>main\<close> passes \<^verbatim>\<open>wg.Wait()\<close> when every worker has returned. Nothing moves when the
  process is over.
\<close>

definition proc_step :: "env \<Rightarrow> u64 \<Rightarrow> u64 \<Rightarrow> event \<Rightarrow> proc \<Rightarrow> proc" where
  "proc_step E sz cs ev s =
     (if mainpc s = Over then s
      else case ev of
        Worker w \<Rightarrow>
          (let p = step E sz cs w (pool s);
               sent = drop (length (status (pool s))) (status p)
           in if sent \<noteq> [] \<and> buffer s \<noteq> [] then s
              else s\<lparr>pool := p, buffer := buffer s @ sent\<rparr>)
      | Aggregator \<Rightarrow>
          (if \<not> receiving s then s
           else case buffer s of
             d # rest \<Rightarrow>
               (let t = sint (word_of_int (totalDownloaded s + Downloaded d) :: u64)
                in s\<lparr>buffer := rest, totalDownloaded := t, out := out s @ [Progress t]\<rparr>)
           | [] \<Rightarrow>
               if closed s then s\<lparr>receiving := False, out := out s @ [DownloadComplete]\<rparr>
               else s)
      | Main \<Rightarrow>
          (case mainpc s of
             AtWait \<Rightarrow> if all_returned (pool s) then s\<lparr>mainpc := AtClose\<rparr> else s
           | AtClose \<Rightarrow> s\<lparr>closed := True, mainpc := AtFileClose\<rparr>
           | AtFileClose \<Rightarrow> s\<lparr>mainpc := AtReturn\<rparr>
           | AtReturn \<Rightarrow> s\<lparr>mainpc := Over\<rparr>
           | Over \<Rightarrow> s))"

definition proc_run :: "env \<Rightarrow> u64 \<Rightarrow> u64 \<Rightarrow> event list \<Rightarrow> proc \<Rightarrow> proc" where
  "proc_run E sz cs evs s = foldl (\<lambda>s ev. proc_step E sz cs ev s) s evs"

definition proc_init :: "nat \<Rightarrow> proc" where
  "proc_init n = \<lparr>pool = init n, buffer = [], closed = False, mainpc = AtWait,
                  receiving = True, totalDownloaded = 0, out = []\<rparr>"

text \<open>
  What the order of the deferred calls establishes: \<^verbatim>\<open>main\<close> is past \<^verbatim>\<open>wg.Wait()\<close> only
  when every worker has returned, the channel is closed only past \<^verbatim>\<open>close(status)\<close>, and
  the aggregator prints its last line only when the channel is closed.
\<close>

definition waited :: "proc \<Rightarrow> bool" where
  "waited s \<longleftrightarrow> (mainpc s \<noteq> AtWait \<longrightarrow> all_returned (pool s)) \<and>
     (closed s \<longrightarrow> mainpc s \<noteq> AtWait \<and> mainpc s \<noteq> AtClose) \<and>
     (DownloadComplete \<in> set (out s) \<longrightarrow> closed s)"

section \<open>Scenarios\<close>

text \<open>
  Two servers for the concrete runs below: one answers every request with a 404 page
  of four bytes, the other breaks the connection after the first byte of the body.
\<close>

definition error_page :: env where
  "error_page = \<lparr>new_request_ok = True,
     get = (\<lambda>a b. DoOk \<lparr>status_code = 404, content_length = [], body = [60, 104, 49, 62],
                        copy_fails = False\<rparr>)\<rparr>"

definition broken_pipe :: env where
  "broken_pipe = \<lparr>new_request_ok = True,
     get = (\<lambda>a b. DoOk \<lparr>status_code = 206, content_length = [], body = [7],
                        copy_fails = True\<rparr>)\<rparr>"

text \<open>
  A server that answers every range request with one byte: the server of a resource of
  one byte, and for a longer resource a server whose bodies are shorter than the ranges.
\<close>

definition one_byte :: env where
  "one_byte = \<lparr>new_request_ok = True,
     get = (\<lambda>a b. DoOk \<lparr>status_code = 206, content_length = ''1'', body = [42],
                        copy_fails = False\<rparr>)\<rparr>"

section \<open>Properties of the allocator\<close>

lemma next_chunk_cursor: "snd (next_chunk sz cs c) = c + 1"
  by (simp add: next_chunk_def Let_def)

lemma chunks_ge: "0 < unat cs \<Longrightarrow> unat sz \<le> chunks sz cs * unat cs"
proof -
  assume c: "0 < unat cs"
  have "(unat sz + unat cs - 1) mod unat cs < unat cs" using c by simp
  moreover have "(unat sz + unat cs - 1) div unat cs * unat cs
      + (unat sz + unat cs - 1) mod unat cs = unat sz + unat cs - 1"
    by simp
  ultimately show ?thesis unfolding chunks_def using c by linarith
qed

lemma chunks_lt:
  assumes c: "0 < unat cs" and i: "i < chunks sz cs"
  shows "i * unat cs < unat sz"
proof -
  have "Suc i \<le> chunks sz cs" using i by simp
  then have "Suc i * unat cs \<le> chunks sz cs * unat cs" by (rule mult_le_mono1)
  also have "\<dots> \<le> unat sz + unat cs - 1" unfolding chunks_def by simp
  finally show ?thesis using c by simp
qed

lemma unat_grid: "i * unat (cs::u64) < 2 ^ 64 \<Longrightarrow> unat (of_nat i * cs) = i * unat cs"
proof -
  assume a: "i * unat cs < 2 ^ 64"
  have "unat (of_nat i * cs) = (i mod 2 ^ 64 * unat cs) mod 2 ^ 64"
    by (simp add: unat_word_ariths unat_of_nat)
  also have "\<dots> = (i * unat cs) mod 2 ^ 64" by (simp add: mod_mult_left_eq)
  also have "\<dots> = i * unat cs" using a by simp
  finally show ?thesis .
qed

lemma fits_grid:
  assumes f: "fits sz cs n" and i: "i \<le> chunks sz cs + n"
  shows "i * unat cs < 2 ^ 64"
proof -
  have "i * unat cs \<le> (chunks sz cs + n) * unat cs" using i by (rule mult_le_mono1)
  moreover have "(chunks sz cs + n) * unat cs < 2 ^ 64" using f by (simp add: fits_def)
  ultimately show ?thesis by (rule le_less_trans)
qed

lemma fits_index:
  assumes f: "fits sz cs n" and i: "i \<le> chunks sz cs + n"
  shows "i < 2 ^ 64"
proof -
  have "0 < unat cs" using f by (simp add: fits_def)
  then have "i \<le> i * unat cs" by simp
  then show ?thesis using fits_grid[OF f i] by (rule le_less_trans)
qed

lemma next_chunk_in:
  assumes f: "fits sz cs n" and i: "i < chunks sz cs"
  shows "next_chunk sz cs (of_nat i)
    = (Some (of_nat i * cs, (of_nat i + 1) * cs - 1), of_nat i + 1)"
proof -
  have c: "0 < unat cs" using f by (simp add: fits_def)
  have "i * unat cs < unat sz" using chunks_lt[OF c i] .
  moreover have "unat sz < 2 ^ 64" using unsigned_less[of sz] by simp
  ultimately have "unat (of_nat i * cs) < unat sz" using unat_grid[of i cs] by simp
  then have "\<not> sz \<le> of_nat i * cs" by (simp add: word_le_nat_alt)
  then show ?thesis by (simp add: next_chunk_def Let_def)
qed

lemma next_chunk_out:
  assumes f: "fits sz cs n" and lo: "chunks sz cs \<le> i" and hi: "i \<le> chunks sz cs + n"
  shows "next_chunk sz cs (of_nat i) = (None, of_nat i + 1)"
proof -
  have c: "0 < unat cs" using f by (simp add: fits_def)
  have "unat (of_nat i * cs) = i * unat cs"
    using fits_grid[OF f hi] by (rule unat_grid)
  moreover have "chunks sz cs * unat cs \<le> i * unat cs" using lo by (rule mult_le_mono1)
  moreover note chunks_ge[OF c, of sz]
  ultimately have "unat sz \<le> unat (of_nat i * cs)" by linarith
  then have "sz \<le> of_nat i * cs" by (simp add: word_le_nat_alt)
  then show ?thesis by (simp add: next_chunk_def Let_def)
qed

lemma drain_step:
  "next_chunk sz cs c = (Some (s, e), c') \<Longrightarrow>
   drain (Suc fuel) sz cs c = map_option (\<lambda>rest. (c, s, e) # rest) (drain fuel sz cs c')"
  by simp

lemma drain_stop: "next_chunk sz cs c = (None, c') \<Longrightarrow> drain (Suc fuel) sz cs c = Some []"
  by simp

lemma drain_from:
  assumes f: "fits sz cs 0"
  shows "i \<le> chunks sz cs \<Longrightarrow>
    drain (Suc (chunks sz cs - i)) sz cs (of_nat i) = Some (map (range_of cs) [i..<chunks sz cs])"
proof (induction "chunks sz cs - i" arbitrary: i)
  case 0
  then have "i = chunks sz cs" by simp
  then show ?case using drain_stop[OF next_chunk_out[OF f, of "chunks sz cs"]] by simp
next
  case (Suc n)
  then have i: "i < chunks sz cs" and n: "n = chunks sz cs - Suc i"
    and le: "Suc i \<le> chunks sz cs" by simp_all
  have ih: "drain (Suc n) sz cs (of_nat i + 1) = Some (map (range_of cs) [Suc i..<chunks sz cs])"
    using Suc.hyps(1)[OF n le] n by (simp add: add.commute del: drain.simps)
  have k: "chunks sz cs - i = Suc n" using Suc by simp
  have u: "[i..<chunks sz cs] = i # [Suc i..<chunks sz cs]" using i by (simp add: upt_conv_Cons)
  show ?case unfolding k u drain_step[OF next_chunk_in[OF f i]] ih
    by (simp add: range_of_def)
qed

text \<open>
  Where the grid fits, one worker draining the allocator claims the chunks of the indices
  \<open>0, \<dots>, chunks - 1\<close> in this order and then stops.
\<close>

lemma drain_all:
  "fits sz cs 0 \<Longrightarrow>
   drain (Suc (chunks sz cs)) sz cs 0 = Some (map (range_of cs) [0..<chunks sz cs])"
  using drain_from[of sz cs 0] by simp

text \<open>The offsets of a chunk as natural numbers, and the partition they form.\<close>

lemma range_start:
  assumes f: "fits sz cs n" and i: "i < chunks sz cs"
  shows "unat (of_nat i * cs) = i * unat cs"
  using fits_grid[OF f, of i] i by (simp add: unat_grid)

lemma range_stop:
  assumes f: "fits sz cs n" and i: "i < chunks sz cs"
  shows "unat ((of_nat i + 1) * cs - 1) = Suc i * unat cs - 1"
proof -
  have c: "0 < unat cs" using f by (simp add: fits_def)
  have "Suc i \<le> chunks sz cs + n" using i by simp
  then have g: "Suc i * unat cs < 2 ^ 64" by (rule fits_grid[OF f])
  have e: "(of_nat i + 1) * cs = of_nat (Suc i) * cs" by (simp add: add.commute)
  have u: "unat (of_nat (Suc i) * cs) = Suc i * unat cs" using g by (rule unat_grid)
  have "1 \<le> of_nat (Suc i) * cs"
    using c u by (simp add: word_le_nat_alt del: of_nat_Suc)
  then have "unat (of_nat (Suc i) * cs - 1) = unat (of_nat (Suc i) * cs) - 1"
    by (simp add: unat_sub del: of_nat_Suc)
  then show ?thesis unfolding e u .
qed

lemma chunk_of_byte:
  assumes c: "0 < unat cs" and b: "b < unat sz"
  shows "b div unat cs < chunks sz cs"
proof (rule ccontr)
  assume "\<not> b div unat cs < chunks sz cs"
  then have "chunks sz cs \<le> b div unat cs" by simp
  then have "chunks sz cs * unat cs \<le> b div unat cs * unat cs" by (rule mult_le_mono1)
  also have "\<dots> \<le> b" by simp
  finally show False using chunks_ge[OF c, of sz] b by linarith
qed

lemma byte_in_chunk:
  assumes c: "0 < (m::nat)"
  shows "i * m \<le> b \<and> b \<le> Suc i * m - 1 \<longleftrightarrow> i = b div m"
proof
  assume a: "i * m \<le> b \<and> b \<le> Suc i * m - 1"
  have "0 < Suc i * m" using c by simp
  with a have "b < Suc i * m" by linarith
  then have "b div m < Suc i" using c by (simp add: div_less_iff_less_mult)
  moreover have "i \<le> b div m" using a c by (simp add: less_eq_div_iff_mult_less_eq)
  ultimately show "i = b div m" by simp
next
  assume i: "i = b div m"
  have "b div m * m \<le> b" by simp
  moreover have "b < Suc (b div m) * m" using c by (simp add: dividend_less_div_times)
  ultimately show "i * m \<le> b \<and> b \<le> Suc i * m - 1" using i by simp
qed

lemma max_size: "(18446744073709551615 :: u64) = - 1"
  by simp

lemma never_exhausted: "fst (next_chunk 18446744073709551615 chunkSize c) \<noteq> None"
proof -
  have "even (c * chunkSize)" by (simp add: chunkSize_def)
  moreover have "odd (- 1 :: u64)" by simp
  ultimately have "c * chunkSize \<noteq> - 1" by metis
  then have "\<not> (- 1 \<le> c * chunkSize)" by (simp add: word_order.extremum_unique)
  then show ?thesis unfolding max_size by (simp add: next_chunk_def Let_def)
qed

lemma drain_never: "drain fuel 18446744073709551615 chunkSize c = None"
proof (induction fuel arbitrary: c)
  case 0
  show ?case by simp
next
  case (Suc fuel)
  obtain r c' where nc: "next_chunk 18446744073709551615 chunkSize c = (r, c')"
    by (cases "next_chunk 18446744073709551615 chunkSize c")
  with never_exhausted[of c] obtain a b where r: "r = Some (a, b)" by (cases r) auto
  show ?case using Suc[of c'] by (simp add: nc r)
qed

text \<open>
  C1. The claim: for every resource size and every positive chunk size, claiming chunks
  until the allocator signals that no work is left yields the indices \<open>0, \<dots>, k\<close> with
  \<open>k = ceil (size / chunkSize) - 1\<close>, in ranges that are disjoint and cover \<open>[0, size)\<close>.
  Lemma \<open>drain_all\<close> shows this where the chunk grid fits below \<open>2 ^ 64\<close>. For the
  resource size \<open>2 ^ 64 - 1\<close>, which \<^verbatim>\<open>strconv.ParseUint\<close> accepts as a
  \<^verbatim>\<open>Content-Length\<close>, and the program's chunk size, the multiplication of line 132 wraps
  around at index \<open>ceil (size / chunkSize) = 1759218604442\<close>: the start offset is 4194304
  again, below the size, a chunk is issued where the signal is due, and since every start
  offset is even and the size is odd, the signal never comes, whatever the fuel.
\<close>

theorem allocator_overflow:
  "chunks 18446744073709551615 chunkSize = 1759218604442 \<and>
   fst (next_chunk 18446744073709551615 chunkSize 1759218604442) = Some (4194304, 14680063) \<and>
   (\<forall>fuel. drain fuel 18446744073709551615 chunkSize 0 = None)"
proof -
  have "chunks 18446744073709551615 chunkSize = 1759218604442"
    by (simp add: chunks_def chunkSize_def)
  moreover have "fst (next_chunk 18446744073709551615 chunkSize 1759218604442)
      = Some (4194304, 14680063)"
    by (simp add: next_chunk_def chunkSize_def Let_def)
  ultimately show ?thesis using drain_never by simp
qed

section \<open>Properties of a worker's step\<close>

lemma fetching_1:
  "run E 1 chunkSize [0] (init 1)
   = \<lparr>partCount = 1,
      workers = [if new_request_ok E then Fetching 0 10485759 else Returned],
      issued = [(0, 0, 10485759)], dest = (\<lambda>p. None), status = [],
      logged = if new_request_ok E then [] else [LogNewRequest]\<rparr>"
  by (simp add: run_def init_def step_def next_chunk_def chunkSize_def Let_def)

text \<open>
  C3. A worker that holds a chunk sends a completion notification exactly when
  \<^verbatim>\<open>Download\<close> returned no error, and the notification carries \<open>end - start + 1\<close>, the
  span that was requested, whatever the number of bytes copied; a worker that does not
  hold a chunk (it is claiming one, or its request could not be built, or it has returned)
  sends nothing.
\<close>

theorem notification_iff_success:
  assumes w: "w < length (workers s)"
  shows "(workers s ! w = Fetching a b \<longrightarrow>
            status (step E sz cs w s) =
              (if fst (Download (get E a b) (dest s) (sint a)) = None
               then status s @ [\<lparr>Downloaded = sint (b - a + 1)\<rparr>] else status s)) \<and>
         ((\<forall>a b. workers s ! w \<noteq> Fetching a b) \<longrightarrow> status (step E sz cs w s) = status s)"
proof (intro conjI impI)
  assume "workers s ! w = Fetching a b"
  then show "status (step E sz cs w s) =
      (if fst (Download (get E a b) (dest s) (sint a)) = None
       then status s @ [\<lparr>Downloaded = sint (b - a + 1)\<rparr>] else status s)"
    using w by (simp add: step_def split: prod.splits option.splits)
next
  assume "\<forall>a b. workers s ! w \<noteq> Fetching a b"
  then show "status (step E sz cs w s) = status s"
    using w by (cases "workers s ! w") (simp_all add: step_def split: prod.splits option.splits)
qed

theorem notification_iff_success_witness:
  "status (step error_page 1 chunkSize 0 (run error_page 1 chunkSize [0] (init 1)))
     = [\<lparr>Downloaded = 10485760\<rparr>] \<and>
   status (step broken_pipe 1 chunkSize 0 (run broken_pipe 1 chunkSize [0] (init 1))) = [] \<and>
   status (step error_page 1 chunkSize 0 (init 1)) = []"
proof -
  have 1: "run error_page 1 chunkSize [0] (init 1)
     = \<lparr>partCount = 1, workers = [Fetching 0 10485759], issued = [(0, 0, 10485759)],
             dest = (\<lambda>p. None), status = [], logged = []\<rparr>"
    unfolding fetching_1 by (simp add: error_page_def)
  have 2: "run broken_pipe 1 chunkSize [0] (init 1)
     = \<lparr>partCount = 1, workers = [Fetching 0 10485759], issued = [(0, 0, 10485759)],
             dest = (\<lambda>p. None), status = [], logged = []\<rparr>"
    unfolding fetching_1 by (simp add: broken_pipe_def)
  show ?thesis
    using notification_iff_success[of 0 "run error_page 1 chunkSize [0] (init 1)" 0 10485759 error_page 1 chunkSize]
      notification_iff_success[of 0 "run broken_pipe 1 chunkSize [0] (init 1)" 0 10485759 broken_pipe 1 chunkSize]
      notification_iff_success[of 0 "init 1" 0 0 error_page 1 chunkSize]
    unfolding 1 2
    by (simp add: Download_def error_page_def broken_pipe_def init_def)
qed



section \<open>Invariants of the workers\<close>

lemma run_snoc: "run E sz cs (sched @ [w]) s = step E sz cs w (run E sz cs sched s)"
  by (simp add: run_def)

lemma count_update:
  "w < length xs \<Longrightarrow>
   length (filter P (xs[w := y])) + (if P (xs ! w) then 1 else 0)
     = length (filter P xs) + (if P y then 1 else 0)"
proof (induction xs arbitrary: w)
  case Nil
  then show ?case by simp
next
  case (Cons x xs)
  show ?case
  proof (cases w)
    case 0
    then show ?thesis by simp
  next
    case (Suc v)
    then have "v < length xs" using Cons.prems by simp
    from Cons.IH[OF this] show ?thesis using Suc by simp
  qed
qed

lemma returned_gain:
  assumes "w < length (workers s)" and "workers s ! w \<noteq> Returned"
  shows "returned (s\<lparr>workers := (workers s)[w := Returned]\<rparr>) = Suc (returned s)"
  using count_update[of w "workers s" "\<lambda>x. x = Returned" Returned] assms
  by (simp add: returned_def)

lemma returned_same:
  assumes "w < length (workers s)" and "workers s ! w \<noteq> Returned" and "x \<noteq> Returned"
  shows "returned (s\<lparr>workers := (workers s)[w := x]\<rparr>) = returned s"
  using count_update[of w "workers s" "\<lambda>x. x = Returned" x] assms
  by (simp add: returned_def)

lemma returned_less:
  assumes "w < length (workers s)" and "workers s ! w \<noteq> Returned"
  shows "returned s < length (workers s)"
proof -
  have "workers s ! w \<in> set (workers s)" using assms(1) by simp
  then show ?thesis unfolding returned_def using assms(2) by (rule length_filter_less)
qed

lemma step_idle: "\<not> w < length (workers s) \<or> workers s ! w = Returned \<Longrightarrow> step E sz cs w s = s"
  by (auto simp: step_def)

lemma step_claim_none:
  assumes "w < length (workers s)" and "workers s ! w = Claiming"
    and "next_chunk sz cs (partCount s) = (None, c')"
  shows "step E sz cs w s = s\<lparr>partCount := c', workers := (workers s)[w := Returned]\<rparr>"
  using assms by (simp add: step_def)

lemma step_claim_some:
  assumes "w < length (workers s)" and "workers s ! w = Claiming"
    and "next_chunk sz cs (partCount s) = (Some (a, b), c')"
  shows "step E sz cs w s =
    (if new_request_ok E
     then s\<lparr>partCount := c', issued := issued s @ [(partCount s, a, b)],
            workers := (workers s)[w := Fetching a b]\<rparr>
     else s\<lparr>partCount := c', issued := issued s @ [(partCount s, a, b)],
            workers := (workers s)[w := Returned],
            logged := logged s @ [LogNewRequest]\<rparr>)"
  using assms by (simp add: step_def)

lemma step_fetch:
  assumes "w < length (workers s)" and "workers s ! w = Fetching a b"
    and "Download (get E a b) (dest s) (sint a) = (r, f')"
  shows "step E sz cs w s =
    (case r of
       Some err \<Rightarrow> s\<lparr>dest := f', workers := (workers s)[w := Returned],
                     logged := logged s @ [LogErrorDownloading]\<rparr>
     | None \<Rightarrow> s\<lparr>dest := f', workers := (workers s)[w := Claiming],
                 status := status s @ [\<lparr>Downloaded = sint (b - a + 1)\<rparr>]\<rparr>)"
  using assms by (simp add: step_def split: option.splits)

lemma unat_succ: "unat (c :: u64) + 1 < 2 ^ 64 \<Longrightarrow> unat (c + 1) = Suc (unat c)"
  by (simp add: unat_word_ariths)

lemma alloc_inv_step:
  assumes f: "fits sz cs n" and i: "alloc_inv sz cs n s"
  shows "alloc_inv sz cs n (step E sz cs w s)"
proof (cases "w < length (workers s) \<and> workers s ! w \<noteq> Returned")
  case False
  then have "step E sz cs w s = s" by (auto intro: step_idle)
  then show ?thesis using i by simp
next
  case True
  then have w: "w < length (workers s)" and nr: "workers s ! w \<noteq> Returned" by simp_all
  let ?k = "chunks sz cs" and ?i = "unat (partCount s)"
  have len: "length (workers s) = n" and lg: "length (logged s) \<le> returned s"
    and cur: "?i - ?k = returned s - length (logged s)"
    and iss: "issued s = map (range_of cs) [0..<min ?i ?k]"
    using i by (simp_all add: alloc_inv_def)
  have rl: "returned s < n" using returned_less[OF w nr] len by simp
  have ib: "?i < ?k + n" using cur rl lg by linarith
  show ?thesis
  proof (cases "workers s ! w")
    case Returned
    then show ?thesis using nr by simp
  next
    case (Fetching a b)
    obtain r f' where d: "Download (get E a b) (dest s) (sint a) = (r, f')"
      by (cases "Download (get E a b) (dest s) (sint a)")
    show ?thesis
    proof (cases r)
      case None
      then have st: "step E sz cs w s = s\<lparr>dest := f', workers := (workers s)[w := Claiming],
                 status := status s @ [\<lparr>Downloaded = sint (b - a + 1)\<rparr>]\<rparr>"
        using step_fetch[OF w Fetching d] by simp
      have "returned (s\<lparr>workers := (workers s)[w := Claiming]\<rparr>) = returned s"
        using returned_same[OF w nr, of Claiming] by simp
      then have "returned (step E sz cs w s) = returned s" unfolding st by (simp add: returned_def)
      then show ?thesis using i unfolding st alloc_inv_def by (simp add: st)
    next
      case (Some e)
      then have st: "step E sz cs w s = s\<lparr>dest := f', workers := (workers s)[w := Returned],
                     logged := logged s @ [LogErrorDownloading]\<rparr>"
        using step_fetch[OF w Fetching d] by simp
      have "returned (s\<lparr>workers := (workers s)[w := Returned]\<rparr>) = Suc (returned s)"
        using returned_gain[OF w nr] .
      then have "returned (step E sz cs w s) = Suc (returned s)" unfolding st by (simp add: returned_def)
      then show ?thesis using i unfolding alloc_inv_def by (simp add: st)
    qed
  next
    case Claiming
    have c: "partCount s = of_nat ?i" by simp
    have sb: "Suc ?i \<le> ?k + n" using ib by simp
    have "Suc ?i < 2 ^ 64" using fits_index[OF f sb] .
    then have su: "unat (partCount s + 1) = Suc ?i" by (simp add: unat_succ)
    show ?thesis
    proof (cases "?i < ?k")
      case True
      have nc: "next_chunk sz cs (partCount s)
          = (Some (of_nat ?i * cs, (of_nat ?i + 1) * cs - 1), partCount s + 1)"
        using next_chunk_in[OF f True] by simp
      have r0: "returned s = length (logged s)" using cur lg True by simp
      have up: "[0..<min (Suc ?i) ?k] = [0..<min ?i ?k] @ [?i]" using True by (simp add: min_def)
      have ro: "range_of cs ?i = (partCount s, of_nat ?i * cs, (of_nat ?i + 1) * cs - 1)"
        by (simp add: range_of_def)
      show ?thesis
      proof (cases "new_request_ok E")
        case True
        then have st: "step E sz cs w s = s\<lparr>partCount := partCount s + 1,
            issued := issued s @ [(partCount s, of_nat ?i * cs, (of_nat ?i + 1) * cs - 1)],
            workers := (workers s)[w := Fetching (of_nat ?i * cs) ((of_nat ?i + 1) * cs - 1)]\<rparr>"
          using step_claim_some[OF w Claiming nc] by simp
        have "returned (s\<lparr>workers := (workers s)[w := Fetching (of_nat ?i * cs) ((of_nat ?i + 1) * cs - 1)]\<rparr>) = returned s"
          using returned_same[OF w nr] by simp
        then have rs: "returned (step E sz cs w s) = returned s" unfolding st by (simp add: returned_def)
        show ?thesis unfolding alloc_inv_def
          using len lg r0 iss \<open>?i < ?k\<close> by (simp add: rs) (simp add: st su up ro)
      next
        case False
        then have st: "step E sz cs w s = s\<lparr>partCount := partCount s + 1,
            issued := issued s @ [(partCount s, of_nat ?i * cs, (of_nat ?i + 1) * cs - 1)],
            workers := (workers s)[w := Returned], logged := logged s @ [LogNewRequest]\<rparr>"
          using step_claim_some[OF w Claiming nc] by simp
        have "returned (s\<lparr>workers := (workers s)[w := Returned]\<rparr>) = Suc (returned s)"
          using returned_gain[OF w nr] .
        then have rs: "returned (step E sz cs w s) = Suc (returned s)" unfolding st by (simp add: returned_def)
        show ?thesis unfolding alloc_inv_def
          using len lg r0 iss \<open>?i < ?k\<close> by (simp add: rs) (simp add: st su up ro)
      qed
    next
      case False
      then have lo: "?k \<le> ?i" by simp
      have hi: "?i \<le> ?k + n" using ib by simp
      have nc: "next_chunk sz cs (partCount s) = (None, partCount s + 1)"
        using next_chunk_out[OF f lo hi] by simp
      have st: "step E sz cs w s = s\<lparr>partCount := partCount s + 1, workers := (workers s)[w := Returned]\<rparr>"
        using step_claim_none[OF w Claiming nc] .
      have "returned (s\<lparr>workers := (workers s)[w := Returned]\<rparr>) = Suc (returned s)"
        using returned_gain[OF w nr] .
      then have rs: "returned (step E sz cs w s) = Suc (returned s)" unfolding st by (simp add: returned_def)
      have mn: "min (Suc ?i) ?k = min ?i ?k" using lo by simp
      show ?thesis unfolding alloc_inv_def
        using len lg cur iss lo by (simp add: rs) (simp add: st su mn)
    qed
  qed
qed

lemma alloc_inv_init: "alloc_inv sz cs n (init n)"
  by (simp add: alloc_inv_def init_def returned_def)

lemma alloc_inv_run:
  assumes f: "fits sz cs n" and i: "alloc_inv sz cs n s"
  shows "alloc_inv sz cs n (run E sz cs sched s)"
proof (induction sched rule: rev_induct)
  case Nil
  show ?case using i by (simp add: run_def)
next
  case (snoc w sched)
  then show ?case unfolding run_snoc by (rule alloc_inv_step[OF f])
qed

lemma all_returned_count: "all_returned s \<Longrightarrow> returned s = length (workers s)"
  by (simp add: all_returned_def returned_def list_all_iff)

lemma drained:
  assumes i: "alloc_inv sz cs n s" and a: "all_returned s" and l: "length (logged s) < n"
  shows "issued s = map (range_of cs) [0..<chunks sz cs]"
proof -
  have "returned s = n" using all_returned_count[OF a] i by (simp add: alloc_inv_def)
  moreover have "unat (partCount s) - chunks sz cs = returned s - length (logged s)"
    using i by (simp add: alloc_inv_def)
  ultimately have "chunks sz cs < unat (partCount s)" using l by linarith
  then have "min (unat (partCount s)) (chunks sz cs) = chunks sz cs" by simp
  then show ?thesis using i by (simp add: alloc_inv_def)
qed

lemma next_chunk_span: "next_chunk sz cs c = (Some (a, b), c') \<Longrightarrow> b - a + 1 = cs"
  by (auto simp: next_chunk_def Let_def algebra_simps split: if_splits)

lemma fetching_update:
  assumes "w < length (workers s)"
  shows "fetching (s\<lparr>workers := (workers s)[w := y]\<rparr>) + (if is_fetching (workers s ! w) then 1 else 0)
    = fetching s + (if is_fetching y then 1 else 0)"
  using count_update[OF assms, of is_fetching y] by (simp add: fetching_def)

lemma notify_inv_step:
  assumes e: "all_succeed E" and i: "notify_inv cs s"
  shows "notify_inv cs (step E sz cs w s)"
proof (cases "w < length (workers s) \<and> workers s ! w \<noteq> Returned")
  case False
  then have "step E sz cs w s = s" by (auto intro: step_idle)
  then show ?thesis using i by simp
next
  case True
  then have w: "w < length (workers s)" and nr: "workers s ! w \<noteq> Returned" by simp_all
  have lg: "logged s = []" and cnt: "length (status s) + fetching s = length (issued s)"
    and dl: "map Downloaded (status s) = replicate (length (status s)) (sint cs)"
    and sp: "\<forall>x \<in> set (workers s). \<forall>a b. x = Fetching a b \<longrightarrow> b - a + 1 = cs"
    using i by (simp_all add: notify_inv_def)
  have sub: "\<And>y. set ((workers s)[w := y]) \<subseteq> insert y (set (workers s))"
    by (rule set_update_subset_insert)
  show ?thesis
  proof (cases "workers s ! w")
    case Returned
    then show ?thesis using nr by simp
  next
    case (Fetching a b)
    have "Fetching a b \<in> set (workers s)" using w Fetching by (metis nth_mem)
    then have span: "b - a + 1 = cs" using sp by simp
    obtain r where g: "get E a b = DoOk r" and c: "\<not> copy_fails r"
      using e by (auto simp: all_succeed_def)
    have d: "Download (get E a b) (dest s) (sint a) = (None, write_at (dest s) (sint a) (body r))"
      using g c by (simp add: Download_def)
    have st: "step E sz cs w s = s\<lparr>dest := write_at (dest s) (sint a) (body r),
        workers := (workers s)[w := Claiming],
        status := status s @ [\<lparr>Downloaded = sint (b - a + 1)\<rparr>]\<rparr>"
      using step_fetch[OF w Fetching d] by simp
    have fe: "fetching (s\<lparr>workers := (workers s)[w := Claiming]\<rparr>) + 1 = fetching s"
      using fetching_update[OF w, of Claiming] Fetching by (simp add: is_fetching_def)
    then have fe': "fetching (step E sz cs w s) + 1 = fetching s" unfolding st by (simp add: fetching_def)
    have sp': "\<forall>x \<in> set ((workers s)[w := Claiming]). \<forall>a b. x = Fetching a b \<longrightarrow> b - a + 1 = cs"
      using sp sub[of Claiming] by auto
    show ?thesis unfolding notify_inv_def
      using lg cnt dl fe' sp' span by (simp add: st replicate_append_same)
  next
    case Claiming
    obtain r c' where nc: "next_chunk sz cs (partCount s) = (r, c')"
      by (cases "next_chunk sz cs (partCount s)")
    show ?thesis
    proof (cases r)
      case None
      have st: "step E sz cs w s = s\<lparr>partCount := c', workers := (workers s)[w := Returned]\<rparr>"
        using step_claim_none[OF w Claiming] nc None by simp
      have "fetching (s\<lparr>workers := (workers s)[w := Returned]\<rparr>) = fetching s"
        using fetching_update[OF w, of Returned] Claiming by (simp add: is_fetching_def)
      then have fe': "fetching (step E sz cs w s) = fetching s" unfolding st by (simp add: fetching_def)
      have sp': "\<forall>x \<in> set ((workers s)[w := Returned]). \<forall>a b. x = Fetching a b \<longrightarrow> b - a + 1 = cs"
        using sp sub[of Returned] by auto
      show ?thesis unfolding notify_inv_def
        using lg cnt dl fe' sp' by (simp add: st)
    next
      case (Some ab)
      obtain a b where ab: "ab = (a, b)" by (cases ab)
      have nc': "next_chunk sz cs (partCount s) = (Some (a, b), c')" using nc Some ab by simp
      have span: "b - a + 1 = cs" using next_chunk_span[OF nc'] .
      have ok: "new_request_ok E" using e by (simp add: all_succeed_def)
      have st: "step E sz cs w s = s\<lparr>partCount := c',
          issued := issued s @ [(partCount s, a, b)],
          workers := (workers s)[w := Fetching a b]\<rparr>"
        using step_claim_some[OF w Claiming nc'] ok by simp
      have "fetching (s\<lparr>workers := (workers s)[w := Fetching a b]\<rparr>) = fetching s + 1"
        using fetching_update[OF w, of "Fetching a b"] Claiming by (simp add: is_fetching_def)
      then have fe': "fetching (step E sz cs w s) = fetching s + 1" unfolding st by (simp add: fetching_def)
      have sp': "\<forall>x \<in> set ((workers s)[w := Fetching a b]). \<forall>a' b'. x = Fetching a' b' \<longrightarrow> b' - a' + 1 = cs"
        using sp sub[of "Fetching a b"] span by auto
      show ?thesis unfolding notify_inv_def
        using lg cnt dl fe' sp' by (simp add: st)
    qed
  qed
qed

lemma notify_inv_init: "notify_inv cs (init n)"
  by (simp add: notify_inv_def init_def fetching_def is_fetching_def)

lemma notify_inv_run:
  assumes e: "all_succeed E"
  shows "notify_inv cs (run E sz cs sched (init n))"
proof (induction sched rule: rev_induct)
  case Nil
  show ?case by (simp add: run_def notify_inv_init)
next
  case (snoc w sched)
  then show ?case unfolding run_snoc by (rule notify_inv_step[OF e])
qed

lemma all_returned_fetching: "all_returned s \<Longrightarrow> fetching s = 0"
  by (auto simp: all_returned_def fetching_def list_all_iff is_fetching_def filter_empty_conv)

lemma all_success_run:
  assumes e: "all_succeed E" and f: "fits sz cs n" and n: "0 < n"
    and a: "all_returned (run E sz cs sched (init n))"
  shows "issued (run E sz cs sched (init n)) = map (range_of cs) [0..<chunks sz cs]"
    and "map Downloaded (status (run E sz cs sched (init n))) = replicate (chunks sz cs) (sint cs)"
proof -
  let ?t = "run E sz cs sched (init n)"
  have ai: "alloc_inv sz cs n ?t" using alloc_inv_run[OF f alloc_inv_init] .
  have ni: "notify_inv cs ?t" using notify_inv_run[OF e] .
  have "length (logged ?t) < n" using ni n by (simp add: notify_inv_def)
  then show 1: "issued ?t = map (range_of cs) [0..<chunks sz cs]" using drained[OF ai a] by simp
  have "length (status ?t) = length (issued ?t)"
    using ni all_returned_fetching[OF a] by (simp add: notify_inv_def)
  then have "length (status ?t) = chunks sz cs" using 1 by simp
  then show "map Downloaded (status ?t) = replicate (chunks sz cs) (sint cs)"
    using ni by (simp add: notify_inv_def)
qed

section \<open>Complete runs of the workers\<close>

lemma chunks_exact:
  assumes c: "0 < unat cs"
  shows "chunks sz cs * unat cs = unat sz \<longleftrightarrow> unat cs dvd unat sz"
proof
  assume "chunks sz cs * unat cs = unat sz"
  then show "unat cs dvd unat sz" by (metis dvd_triv_right)
next
  assume "unat cs dvd unat sz"
  then obtain q where q: "unat sz = unat cs * q" by (auto simp: dvd_def)
  have "(unat cs - 1 + q * unat cs) div unat cs = q + (unat cs - 1) div unat cs"
    using c by (simp only: div_mult_self1)
  moreover have "(unat cs - 1) div unat cs = 0" using c by simp
  moreover have "unat cs * q + unat cs - 1 = unat cs - 1 + q * unat cs"
    using c by (simp add: mult.commute)
  ultimately have "chunks sz cs = q" unfolding chunks_def q by simp
  then show "chunks sz cs * unat cs = unat sz" using q by simp
qed

lemma one_byte_succeeds: "all_succeed one_byte"
  by (simp add: all_succeed_def one_byte_def)

lemma two_workers_run:
  "run one_byte 20971525 chunkSize [0, 1, 0, 1, 1, 0, 1, 1] (init 2)
   = \<lparr>partCount = 5, workers = [Returned, Returned],
      issued = [(0, 0, 10485759), (1, 10485760, 20971519), (2, 20971520, 31457279)],
      dest = write_at (write_at (write_at (\<lambda>p. None) 0 [42]) 10485760 [42]) 20971520 [42],
      status = [\<lparr>Downloaded = 10485760\<rparr>, \<lparr>Downloaded = 10485760\<rparr>, \<lparr>Downloaded = 10485760\<rparr>],
      logged = []\<rparr>"
proof -
  have i: "init 2 = \<lparr>partCount = 0, workers = [Claiming, Claiming], issued = [],
             dest = (\<lambda>p. None), status = [], logged = []\<rparr>"
    by (simp add: init_def numeral_2_eq_2)
  show ?thesis unfolding i
    by (simp add: run_def step_def next_chunk_def chunkSize_def Let_def one_byte_def
        Download_def)
qed



lemma one_chunk_run:
  "run one_byte 1 chunkSize [0, 0, 0] (init 1)
   = \<lparr>partCount = 2, workers = [Returned], issued = [(0, 0, 10485759)],
      dest = write_at (\<lambda>p. None) 0 [42], status = [\<lparr>Downloaded = 10485760\<rparr>], logged = []\<rparr>"
  by (simp add: run_def init_def step_def next_chunk_def chunkSize_def Let_def one_byte_def
      Download_def)

lemma fits_three: "fits 20971525 chunkSize 2"
  by (simp add: fits_def chunks_def chunkSize_def)


text \<open>
  C2. The claim: when every download succeeds, the byte counts of the notifications add up
  to the resource size, the last chunk counting for its part below the size only. The
  worker sends \<open>end - start + 1\<close> for every chunk, the last one included, and that is the
  chunk size: when every download has succeeded and every worker has returned (and the
  chunk grid fits the 64-bit range) there are \<open>chunks size chunkSize\<close> notifications of
  \<open>chunkSize\<close> bytes each. Their sum is the size rounded up to a multiple of the chunk
  size; it is the size exactly when the chunk size divides the size.
\<close>

theorem notifications_sum:
  assumes e: "all_succeed E" and f: "fits sz cs n" and n: "0 < n"
    and a: "all_returned (run E sz cs sched (init n))"
  shows "map Downloaded (status (run E sz cs sched (init n))) = replicate (chunks sz cs) (sint cs) \<and>
         sum_list (map Downloaded (status (run E sz cs sched (init n)))) = int (chunks sz cs) * sint cs \<and>
         (chunks sz cs * unat cs = unat sz \<longleftrightarrow> unat cs dvd unat sz)"
proof -
  have m: "map Downloaded (status (run E sz cs sched (init n))) = replicate (chunks sz cs) (sint cs)"
    using all_success_run(2)[OF e f n a] .
  have "0 < unat cs" using f by (simp add: fits_def)
  then show ?thesis unfolding m by (simp add: sum_list_replicate chunks_exact)
qed

theorem notifications_sum_witness:
  "all_succeed one_byte \<and> fits 20971525 chunkSize 2 \<and>
   all_returned (run one_byte 20971525 chunkSize [0, 1, 0, 1, 1, 0, 1, 1] (init 2)) \<and>
   chunks 20971525 chunkSize = 3 \<and>
   sum_list (map Downloaded (status (run one_byte 20971525 chunkSize [0, 1, 0, 1, 1, 0, 1, 1] (init 2))))
     = 3 * 10485760"
proof -
  have a: "all_returned (run one_byte 20971525 chunkSize [0, 1, 0, 1, 1, 0, 1, 1] (init 2))"
    unfolding two_workers_run by (simp add: all_returned_def)
  have k: "chunks 20971525 chunkSize = 3" by (simp add: chunks_def chunkSize_def)
  have c: "sint chunkSize = 10485760" by (simp add: chunkSize_def)
  show ?thesis
    using notifications_sum[OF one_byte_succeeds fits_three _ a] a fits_three one_byte_succeeds
    by (simp add: k c sum_list_replicate)
qed

text \<open>
  A resource of one byte, fetched by one worker: the only notification carries 10485760
  bytes.
\<close>

theorem notifications_exceed_size:
  "all_succeed one_byte \<and>
   all_returned (run one_byte 1 chunkSize [0, 0, 0] (init 1)) \<and>
   sum_list (map Downloaded (status (run one_byte 1 chunkSize [0, 0, 0] (init 1)))) = 10485760 \<and>
   sum_list (map Downloaded (status (run one_byte 1 chunkSize [0, 0, 0] (init 1)))) \<noteq> uint (1 :: u64)"
  unfolding one_chunk_run by (simp add: one_byte_succeeds all_returned_def)



section \<open>Properties of the start of the run\<close>



text \<open>
  C7. When the destination exists and the override flag is not set, \<^verbatim>\<open>main\<close> returns at
  line 88 with no HTTP request sent, neither HEAD nor GET.
\<close>

theorem existing_file_no_request:
  assumes "stat W = StatOk" and "\<not> override A"
  shows "main A W = \<lparr>phase = Ended Return, requests = [], printed = [MsgFileExists]\<rparr> \<and>
         exit_status Return = 0"
  using assms by (simp add: main_def Exists_def)

theorem existing_file_no_request_witness:
  "main \<lparr>override = False, concurrencyLevel = 10\<rparr>
      \<lparr>stat = StatOk, url_ok = True,
       head_result = DoOk \<lparr>status_code = 200, content_length = ''25'', body = [], copy_fails = False\<rparr>,
       open_ok = True\<rparr>
     = \<lparr>phase = Ended Return, requests = [], printed = [MsgFileExists]\<rparr>"
  using existing_file_no_request[of
      "\<lparr>stat = StatOk, url_ok = True,
       head_result = DoOk \<lparr>status_code = 200, content_length = ''25'', body = [], copy_fails = False\<rparr>,
       open_ok = True\<rparr>" "\<lparr>override = False, concurrencyLevel = 10\<rparr>"]
  by simp

text \<open>
  C10. When \<^verbatim>\<open>os.Stat\<close> fails with an error other than not-exist, \<^verbatim>\<open>main\<close> returns at
  line 88 whatever the override flag, with exit status zero and no HTTP request sent.
\<close>

theorem stat_error_no_request:
  assumes "stat W = StatOtherError"
  shows "main A W = \<lparr>phase = Ended Return, requests = [], printed = [MsgStatError]\<rparr> \<and>
         exit_status Return = 0"
  using assms by (simp add: main_def Exists_def)

theorem stat_error_no_request_witness:
  "main \<lparr>override = True, concurrencyLevel = 10\<rparr>
      \<lparr>stat = StatOtherError, url_ok = True,
       head_result = DoOk \<lparr>status_code = 200, content_length = ''25'', body = [], copy_fails = False\<rparr>,
       open_ok = True\<rparr>
     = \<lparr>phase = Ended Return, requests = [], printed = [MsgStatError]\<rparr> \<and>
   main \<lparr>override = False, concurrencyLevel = 10\<rparr>
      \<lparr>stat = StatOtherError, url_ok = True,
       head_result = DoOk \<lparr>status_code = 200, content_length = ''25'', body = [], copy_fails = False\<rparr>,
       open_ok = True\<rparr>
     = \<lparr>phase = Ended Return, requests = [], printed = [MsgStatError]\<rparr>"
  using stat_error_no_request[of
      "\<lparr>stat = StatOtherError, url_ok = True,
       head_result = DoOk \<lparr>status_code = 200, content_length = ''25'', body = [], copy_fails = False\<rparr>,
       open_ok = True\<rparr>" "\<lparr>override = True, concurrencyLevel = 10\<rparr>"]
    stat_error_no_request[of
      "\<lparr>stat = StatOtherError, url_ok = True,
       head_result = DoOk \<lparr>status_code = 200, content_length = ''25'', body = [], copy_fails = False\<rparr>,
       open_ok = True\<rparr>" "\<lparr>override = False, concurrencyLevel = 10\<rparr>"]
  by simp

section \<open>Properties of the end of the run\<close>

lemma proc_run_snoc:
  "proc_run E sz cs (evs @ [ev]) s = proc_step E sz cs ev (proc_run E sz cs evs s)"
  by (simp add: proc_run_def)

lemma proc_run_append:
  "proc_run E sz cs (evs @ evs') s = proc_run E sz cs evs' (proc_run E sz cs evs s)"
  by (simp add: proc_run_def)

lemma step_returned: "all_returned p \<Longrightarrow> step E sz cs w p = p"
  by (simp add: step_def all_returned_def list_all_length)

lemma proc_over: "mainpc s = Over \<Longrightarrow> proc_run E sz cs evs s = s"
  by (induction evs rule: rev_induct) (simp_all add: proc_run_def proc_step_def)

lemma waited_step: "waited s \<Longrightarrow> waited (proc_step E sz cs ev s)"
proof (cases ev)
  case (Worker w)
  assume i: "waited s"
  show ?thesis
  proof (cases "mainpc s = AtWait")
    case True
    then show ?thesis using i Worker by (auto simp: waited_def proc_step_def Let_def)
  next
    case False
    then have "all_returned (pool s)" using i by (simp add: waited_def)
    then have "step E sz cs w (pool s) = pool s" by (rule step_returned)
    then show ?thesis using i Worker by (simp add: waited_def proc_step_def Let_def)
  qed
next
  case Aggregator
  assume i: "waited s"
  then show ?thesis using Aggregator
    by (auto simp: waited_def proc_step_def Let_def split: list.splits)
next
  case Main
  assume i: "waited s"
  then show ?thesis using Main
    by (cases "mainpc s") (auto simp: waited_def proc_step_def)
qed

lemma waited_run: "waited (proc_run E sz cs evs (proc_init n))"
proof (induction evs rule: rev_induct)
  case Nil
  show ?case by (simp add: proc_run_def proc_init_def waited_def)
next
  case (snoc ev evs)
  then show ?case unfolding proc_run_snoc by (rule waited_step)
qed

text \<open>The channel is closed only after every worker has returned.\<close>

lemma closed_after_workers:
  "closed (proc_run E sz cs evs (proc_init n)) \<Longrightarrow>
   all_returned (pool (proc_run E sz cs evs (proc_init n)))"
  using waited_run[of E sz cs evs n] by (auto simp: waited_def)

lemma silent_end:
  "proc_run one_byte 1 chunkSize [Worker 0, Worker 0, Worker 0, Main, Main, Main, Main] (proc_init 1)
   = \<lparr>pool = \<lparr>partCount = 2, workers = [Returned], issued = [(0, 0, 10485759)],
         dest = write_at (\<lambda>p. None) 0 [42], status = [\<lparr>Downloaded = 10485760\<rparr>], logged = []\<rparr>,
       buffer = [\<lparr>Downloaded = 10485760\<rparr>], closed = True, mainpc = Over,
       receiving = True, totalDownloaded = 0, out = []\<rparr>"
  by (simp add: proc_run_def proc_init_def proc_step_def init_def step_def next_chunk_def
      chunkSize_def Let_def one_byte_def Download_def all_returned_def)

text \<open>
  C6. The claim: after every worker has terminated the channel is closed, and on its
  closure the aggregator prints \<^verbatim>\<open>Download complete\<close> before the run ends. The first half
  is \<open>closed_after_workers\<close>. For the second, nothing makes \<^verbatim>\<open>main\<close> wait for the
  aggregator goroutine: in the run below, of one worker on a resource of one byte, \<^verbatim>\<open>main\<close>
  closes the channel, closes the file and returns before the aggregator is scheduled.
  The process is over with the channel closed and the notification still in it; neither
  the progress nor \<^verbatim>\<open>Download complete\<close> is printed, then or later.
\<close>

theorem run_ends_before_completion_line:
  "mainpc (proc_run one_byte 1 chunkSize
      [Worker 0, Worker 0, Worker 0, Main, Main, Main, Main] (proc_init 1)) = Over \<and>
   closed (proc_run one_byte 1 chunkSize
      [Worker 0, Worker 0, Worker 0, Main, Main, Main, Main] (proc_init 1)) \<and>
   all_returned (pool (proc_run one_byte 1 chunkSize
      [Worker 0, Worker 0, Worker 0, Main, Main, Main, Main] (proc_init 1))) \<and>
   (\<forall>evs. out (proc_run one_byte 1 chunkSize
      ([Worker 0, Worker 0, Worker 0, Main, Main, Main, Main] @ evs) (proc_init 1)) = [])"
  unfolding proc_run_append silent_end
  by (simp add: proc_over all_returned_def)

end
